theory Spec2Isabelle
  imports Main
begin

section \<open>Values\<close>

text \<open>
  The values that \<^verbatim>\<open>stripValue\<close> inspects (\<^verbatim>\<open>src/package/src/types/components.ts\<close>):
  \<^verbatim>\<open>null\<close>, \<^verbatim>\<open>undefined\<close>, the scalars, arrays and plain objects. Numbers are never
  computed on, so their type is a parameter. An object is the list of its own enumerable
  properties in the order in which \<^verbatim>\<open>Object.keys\<close> and \<^verbatim>\<open>Object.entries\<close> enumerate them.
  A value of this datatype is finite, hence acyclic.
\<close>

datatype 'n jv =
    JNull
  | JUndefined
  | JBool bool
  | JNum 'n
  | JStr string
  | JArr "'n jv list"
  | JObj "(string \<times> 'n jv) list"

text \<open>\<^verbatim>\<open>value === null || value === undefined\<close>\<close>

definition isNullish :: "'n jv \<Rightarrow> bool" where
  "isNullish v = (v = JNull \<or> v = JUndefined)"

text \<open>
  \<^verbatim>\<open>nested[key] = stripped\<close> on an object created by the literal \<^verbatim>\<open>{}\<close>: an own property
  of that name is overwritten in place, otherwise the property is added last. The one
  name that is not an ordinary property is \<^verbatim>\<open>__proto__\<close>, an accessor inherited from
  \<^verbatim>\<open>Object.prototype\<close>: assigning to it creates no own property.
\<close>

fun setProperty :: "(string \<times> 'v) list \<Rightarrow> string \<Rightarrow> 'v \<Rightarrow> (string \<times> 'v) list" where
  "setProperty [] key v = [(key, v)]"
| "setProperty ((k, w) # rest) key v =
     (if k = key then (k, v) # rest else (k, w) # setProperty rest key v)"

definition assign :: "(string \<times> 'v) list \<Rightarrow> string \<Rightarrow> 'v \<Rightarrow> (string \<times> 'v) list" where
  "assign nested key v = (if key = ''__proto__'' then nested else setProperty nested key v)"

section \<open>The null stripper\<close>

text \<open>
  \<^verbatim>\<open>stripValue\<close>, the closure inside \<^verbatim>\<open>stripNulls\<close>. The array case is \<^verbatim>\<open>value.map\<close>, the object
  case is the \<^verbatim>\<open>for\<close> loop over \<^verbatim>\<open>Object.entries(value)\<close> with \<^verbatim>\<open>nested\<close> as its state.
\<close>

fun stripValue :: "'n jv \<Rightarrow> 'n jv" where
  "stripValue JNull = JUndefined"
| "stripValue JUndefined = JUndefined"
| "stripValue (JArr items) =
     JArr (map (\<lambda>item. if isNullish item then item else stripValue item) items)"
| "stripValue (JObj entries) =
     JObj (foldl (\<lambda>nested (key, innerValue).
             if isNullish innerValue then nested
             else (let stripped = stripValue innerValue
                   in if stripped \<noteq> JUndefined then assign nested key stripped else nested))
           [] entries)"
| "stripValue (JBool b) = JBool b"
| "stripValue (JNum n) = JNum n"
| "stripValue (JStr s) = JStr s"

definition stripNulls :: "'n jv \<Rightarrow> 'n jv" where
  "stripNulls obj = stripValue obj"

text \<open>\<^verbatim>\<open>componentsToRecord\<close>: only \<^verbatim>\<open>undefined\<close> is tested before \<^verbatim>\<open>stripNulls\<close> is called.\<close>

definition componentsToRecord :: "'n jv \<Rightarrow> 'n jv" where
  "componentsToRecord components =
     (if components = JUndefined then JUndefined else stripNulls components)"



text \<open>A value with no \<^verbatim>\<open>null\<close> and no \<^verbatim>\<open>undefined\<close> at any depth.\<close>

fun nullFree :: "'n jv \<Rightarrow> bool" where
  "nullFree JNull = False"
| "nullFree JUndefined = False"
| "nullFree (JArr items) = list_all nullFree items"
| "nullFree (JObj entries) = list_all (\<lambda>(key, innerValue). nullFree innerValue) entries"
| "nullFree v = True"

text \<open>No object at any depth, also inside arrays, has a field bound to \<^verbatim>\<open>null\<close> or \<^verbatim>\<open>undefined\<close>.\<close>

fun noNullFields :: "'n jv \<Rightarrow> bool" where
  "noNullFields (JArr items) = list_all noNullFields items"
| "noNullFields (JObj entries) =
     list_all (\<lambda>(key, innerValue). \<not> isNullish innerValue \<and> noNullFields innerValue) entries"
| "noNullFields v = True"

definition isRecord :: "'n jv \<Rightarrow> bool" where
  "isRecord v = (case v of JObj entries \<Rightarrow> True | _ \<Rightarrow> False)"

definition isSequence :: "'n jv \<Rightarrow> bool" where
  "isSequence v = (case v of JArr items \<Rightarrow> True | _ \<Rightarrow> False)"

section \<open>The validator\<close>

text \<open>
  \<^verbatim>\<open>new Error(message)\<close>, and the \<^verbatim>\<open>TypeError\<close> that the platform raises, with its message.
\<close>

datatype error = Error string | TypeError string

definition KNOWN_ENTITY_COMPONENTS :: "string list" where
  "KNOWN_ENTITY_COMPONENTS =
     [''telemetry'', ''geometry'', ''task_catalog'', ''media_refs'', ''mil_view'', ''health'',
      ''sensor_refs'', ''communications'', ''task_queue'', ''status'', ''heartbeat'']"

text \<open>\<^verbatim>\<open>KNOWN_ENTITY_COMPONENTS.has(key)\<close>\<close>

definition has :: "string list \<Rightarrow> string \<Rightarrow> bool" where
  "has s key = (key \<in> set s)"

text \<open>\<^verbatim>\<open>key.startsWith(searchString)\<close>\<close>

definition startsWith :: "string \<Rightarrow> string \<Rightarrow> bool" where
  "startsWith key searchString = (take (length searchString) key = searchString)"

text \<open>The message of the error, a template literal around the key.\<close>

definition unknownComponentMessage :: "string \<Rightarrow> string" where
  "unknownComponentMessage key =
     ''Unknown component '' @ [CHR 0x27] @ key @ [CHR 0x27]
     @ '' in entity components. Custom components must be prefixed with ''
     @ [CHR 0x27] @ ''custom_'' @ [CHR 0x27]"

text \<open>\<^verbatim>\<open>Object.keys(components)\<close>, for an object given as its list of properties.\<close>

definition Object_keys :: "(string \<times> 'v) list \<Rightarrow> string list" where
  "Object_keys obj = map fst obj"

text \<open>The \<^verbatim>\<open>for\<close> loop of \<^verbatim>\<open>validateEntityComponents\<close>: the first key that fails the test throws.\<close>

fun validateKeys :: "string list \<Rightarrow> error + unit" where
  "validateKeys [] = Inr ()"
| "validateKeys (key # rest) =
     (if \<not> has KNOWN_ENTITY_COMPONENTS key \<and> \<not> startsWith key ''custom_''
      then Inl (Error (unknownComponentMessage key))
      else validateKeys rest)"

definition validateEntityComponents :: "(string \<times> 'v) list \<Rightarrow> error + unit" where
  "validateEntityComponents components = validateKeys (Object_keys components)"

text \<open>A key that the validator rejects.\<close>

definition offending :: "string \<Rightarrow> bool" where
  "offending key = (\<not> has KNOWN_ENTITY_COMPONENTS key \<and> \<not> startsWith key ''custom_'')"

section \<open>The client methods that carry components\<close>

text \<open>
  A method of \<^verbatim>\<open>AtlasHttpClient\<close> (\<^verbatim>\<open>src/package/src/httpClient.ts\<close>) either throws before
  it returns, or returns a promise that is rejected or resolved.
\<close>

datatype 'a outcome = Thrown error | Rejected error | Resolved 'a

text \<open>
  What the transport \<^verbatim>\<open>fetchImpl\<close> is called with: the URL is \<^verbatim>\<open>url.toString()\<close>, the body is
  the record that \<^verbatim>\<open>JSON.stringify\<close> serialises.
\<close>

record 'n request =
  reqMethod :: string
  reqUrl :: string
  reqHeaders :: "(string \<times> string) list"
  reqBody :: "'n jv option"

text \<open>
  What the transport answers with. Reading the body as text or as JSON can fail, and so can
  the transport itself: a failure is the error with which the promise is rejected.
\<close>

record 'n response =
  respOk :: bool
  respStatus :: nat
  respText :: "error + string"
  respJson :: "error + 'n jv"

record 'n client =
  baseUrl :: string
  token :: "string option"
  fetchImpl :: "'n request \<Rightarrow> error + 'n response"

definition headers :: "'n client \<Rightarrow> (string \<times> string) list" where
  "headers c =
     (''Content-Type'', ''application/json'')
     # (case token c of
          None \<Rightarrow> []
        | Some t \<Rightarrow> if t \<noteq> [] then [(''Authorization'', ''Bearer '' @ t)] else [])"

text \<open>The decimal digits of a status code, as the template literal prints it.\<close>

fun decimal :: "nat \<Rightarrow> string" where
  "decimal n =
     (if n < 10 then [char_of (48 + n)]
      else decimal (n div 10) @ [char_of (48 + n mod 10)])"

text \<open>
  \<^verbatim>\<open>request(method, path, body)\<close>, called without query parameters by the four methods below.
  Its first statement is \<^verbatim>\<open>new URL(baseUrl + path)\<close>. The constructor \<^verbatim>\<open>URL\<close> belongs to the
  platform, not to this package, so it is the parameter \<open>newURL\<close>: it either throws, or gives
  the URL whose \<^verbatim>\<open>toString()\<close> is passed on. The function is \<^verbatim>\<open>async\<close>: whatever is thrown
  inside it rejects the promise. The list of requests is the record of the calls made to the
  transport so far.
\<close>

definition request ::
  "(string \<Rightarrow> error + string) \<Rightarrow> 'n client \<Rightarrow> string \<Rightarrow> string
   \<Rightarrow> (string \<times> 'n jv) list option \<Rightarrow> 'n request list
   \<Rightarrow> 'n jv outcome \<times> 'n request list" where
  "request newURL c method path body calls =
     (case newURL (baseUrl c @ path) of
        Inl e \<Rightarrow> (Rejected e, calls)
      | Inr url \<Rightarrow>
          (let req = \<lparr>reqMethod = method, reqUrl = url, reqHeaders = headers c,
                      reqBody = map_option JObj body\<rparr>
           in (case fetchImpl c req of
                 Inl e \<Rightarrow> Rejected e
               | Inr response \<Rightarrow>
                   if \<not> respOk response
                   then (case respText response of
                           Inl e \<Rightarrow> Rejected e
                         | Inr detail \<Rightarrow>
                             Rejected (Error (''HTTP '' @ decimal (respStatus response) @ '': ''
                                              @ detail)))
                   else if respStatus response = 204 then Resolved JUndefined
                   else (case respJson response of
                           Inl e \<Rightarrow> Rejected e
                         | Inr v \<Rightarrow> Resolved v),
               calls @ [req])))"









section \<open>The order of the keys of an object\<close>

text \<open>
  \<^verbatim>\<open>Object.keys\<close> does not enumerate the properties of an object in the order in which they
  were created: the names that are array indices (the decimal numerals, without a leading
  zero, of the integers below \<open>2\<^sup>3\<^sup>2 - 1\<close>) come first, in ascending numeric order, and
  the other names follow in the order of their creation.
\<close>

definition isDigit :: "char \<Rightarrow> bool" where
  "isDigit ch = (ch \<in> set ''0123456789'')"

definition digitValue :: "char \<Rightarrow> nat" where
  "digitValue ch = of_char ch - 48"

definition indexValue :: "string \<Rightarrow> nat" where
  "indexValue name = foldl (\<lambda>n ch. 10 * n + digitValue ch) 0 name"

definition isArrayIndex :: "string \<Rightarrow> bool" where
  "isArrayIndex name =
     (name \<noteq> [] \<and> list_all isDigit name \<and> (hd name = CHR ''0'' \<longrightarrow> name = ''0'')
      \<and> indexValue name < 4294967295)"

text \<open>
  From the properties of an object in the order of their creation to the same properties in
  the order of enumeration, which is the order of the lists that \<^verbatim>\<open>Object_keys\<close>,
  \<^verbatim>\<open>validateEntityComponents\<close> and \<^verbatim>\<open>stripValue\<close> take.
\<close>

definition ownProperties :: "(string \<times> 'v) list \<Rightarrow> (string \<times> 'v) list" where
  "ownProperties created =
     sort_key (\<lambda>(name, v). indexValue name) (filter (\<lambda>(name, v). isArrayIndex name) created)
     @ filter (\<lambda>(name, v). \<not> isArrayIndex name) created"

section \<open>Deeply nested values\<close>


section \<open>Auxiliary notions for the proofs\<close>

text \<open>One round of the loop over the entries of an object.\<close>

definition stripStep ::
  "(string \<times> 'n jv) list \<Rightarrow> string \<times> 'n jv \<Rightarrow> (string \<times> 'n jv) list" where
  "stripStep nested entry =
     (if isNullish (snd entry) then nested
      else if stripValue (snd entry) \<noteq> JUndefined
           then assign nested (fst entry) (stripValue (snd entry))
      else nested)"

text \<open>
  The state of the loop at every round: the names are distinct and ordinary, and no value is
  \<^verbatim>\<open>null\<close> or \<^verbatim>\<open>undefined\<close>; \<open>Q\<close> is what else holds of the values.
\<close>

definition tidy :: "('n jv \<Rightarrow> bool) \<Rightarrow> (string \<times> 'n jv) list \<Rightarrow> bool" where
  "tidy Q nested =
     (distinct (map fst nested) \<and> ''__proto__'' \<notin> fst ` set nested
      \<and> (\<forall>(k, w) \<in> set nested. \<not> isNullish w \<and> Q w))"

section \<open>The stripper: lemmas and results\<close>

lemma stripValue_JObj: "stripValue (JObj entries) = JObj (foldl stripStep [] entries)"
proof -
  have "foldl (\<lambda>nested (key, innerValue).
             if isNullish innerValue then nested
             else (let stripped = stripValue innerValue
                   in if stripped \<noteq> JUndefined then assign nested key stripped else nested))
          [] entries
        = foldl stripStep [] entries"
    by (rule foldl_cong) (auto simp: stripStep_def Let_def)
  then show ?thesis by (simp only: stripValue.simps)
qed

lemma stripValue_not_nullish: "\<not> isNullish v \<Longrightarrow> \<not> isNullish (stripValue v)"
  by (cases v) (simp_all add: isNullish_def)

lemma stripStep_kept:
  "\<not> isNullish v \<Longrightarrow> stripStep nested (k, v) = assign nested k (stripValue v)"
  using stripValue_not_nullish [of v] by (simp add: stripStep_def isNullish_def)

lemma setProperty_fresh: "key \<notin> fst ` set nested \<Longrightarrow> setProperty nested key v = nested @ [(key, v)]"
  by (induction nested key v rule: setProperty.induct) auto

lemma keys_setProperty: "fst ` set (setProperty nested key v) = insert key (fst ` set nested)"
  by (induction nested key v rule: setProperty.induct) auto

lemma map_fst_setProperty:
  "map fst (setProperty nested key v) = (if key \<in> fst ` set nested then map fst nested else map fst nested @ [key])"
  by (induction nested key v rule: setProperty.induct) (auto)

lemma distinct_setProperty: "distinct (map fst nested) \<Longrightarrow> distinct (map fst (setProperty nested key v))"
  by (simp add: map_fst_setProperty)

lemma set_setProperty: "set (setProperty nested key v) \<subseteq> insert (key, v) (set nested)"
  by (induction nested key v rule: setProperty.induct) auto

lemma foldl_stripStep_distinct:
  "distinct (map fst entries) \<Longrightarrow> fst ` set acc \<inter> fst ` set entries = {} \<Longrightarrow>
   foldl stripStep acc entries =
     acc @ map (\<lambda>(k, v). (k, stripValue v))
              (filter (\<lambda>(k, v). \<not> isNullish v \<and> k \<noteq> ''__proto__'') entries)"
proof (induction entries arbitrary: acc)
  case Nil
  then show ?case by simp
next
  case (Cons e entries)
  obtain k v where e: "e = (k, v)" by (cases e)
  show ?case
  proof (cases "isNullish v \<or> k = ''__proto__''")
    case True
    then have "stripStep acc e = acc"
      by (auto simp: e stripStep_def assign_def)
    with Cons True show ?thesis by (auto simp: e)
  next
    case False
    with Cons.prems have step: "stripStep acc e = acc @ [(k, stripValue v)]"
      by (auto simp: e stripStep_kept assign_def setProperty_fresh)
    have "fst ` set (acc @ [(k, stripValue v)]) \<inter> fst ` set entries = {}"
      using Cons.prems by (auto simp: e)
    with Cons.IH [of "acc @ [(k, stripValue v)]"] Cons.prems False step
    show ?thesis by (simp add: e)
  qed
qed


lemma tidy_Nil: "tidy Q []"
  by (simp add: tidy_def)

lemma tidy_stripStep:
  assumes "tidy Q nested" and "\<not> isNullish v \<Longrightarrow> Q (stripValue v)"
  shows "tidy Q (stripStep nested (k, v))"
proof (cases "isNullish v \<or> k = ''__proto__''")
  case True
  then have "stripStep nested (k, v) = nested"
    by (auto simp: stripStep_def assign_def)
  with assms show ?thesis by simp
next
  case False
  then have s: "stripStep nested (k, v) = setProperty nested k (stripValue v)"
    by (simp add: stripStep_kept assign_def)
  have "\<not> isNullish (stripValue v)" "Q (stripValue v)"
    using False assms(2) stripValue_not_nullish by auto
  with assms(1) False set_setProperty [of nested k "stripValue v"] show ?thesis
    unfolding s tidy_def
    by (auto simp: distinct_setProperty keys_setProperty)
qed

lemma tidy_foldl_stripStep:
  "tidy Q acc \<Longrightarrow> (\<And>k v. (k, v) \<in> set entries \<Longrightarrow> \<not> isNullish v \<Longrightarrow> Q (stripValue v)) \<Longrightarrow>
   tidy Q (foldl stripStep acc entries)"
proof (induction entries arbitrary: acc)
  case Nil
  then show ?case by simp
next
  case (Cons e entries)
  obtain k v where e: "e = (k, v)" by (cases e)
  have "tidy Q (stripStep acc (k, v))"
    using Cons.prems by (intro tidy_stripStep) (auto simp: e)
  then have "tidy Q (foldl stripStep (stripStep acc (k, v)) entries)"
    using Cons.prems by (intro Cons.IH) auto
  then show ?case by (simp add: e)
qed

lemma foldl_stripStep_tidy_fixed:
  assumes "tidy (\<lambda>w. stripValue w = w) nested"
  shows "foldl stripStep [] nested = nested"
proof -
  have d: "distinct (map fst nested)" using assms by (simp add: tidy_def)
  have keep: "filter (\<lambda>(k, v). \<not> isNullish v \<and> k \<noteq> ''__proto__'') nested = nested"
    using assms by (intro filter_True) (force simp: tidy_def)
  have same: "map (\<lambda>(k, v). (k, stripValue v)) nested = nested"
    using assms by (intro map_idI) (auto simp: tidy_def)
  from foldl_stripStep_distinct [OF d, of "[]"] keep same show ?thesis by simp
qed

lemma stripValue_idem: "stripValue (stripValue v) = stripValue v"
proof (induction v)
  case (JArr items)
  have "(if isNullish (if isNullish item then item else stripValue item)
         then (if isNullish item then item else stripValue item)
         else stripValue (if isNullish item then item else stripValue item))
        = (if isNullish item then item else stripValue item)"
    if "item \<in> set items" for item
    using that JArr.IH [of item] stripValue_not_nullish [of item] by auto
  then show ?case by (simp add: comp_def)
next
  case (JObj entries)
  have "tidy (\<lambda>w. stripValue w = w) (foldl stripStep [] entries)"
  proof (rule tidy_foldl_stripStep [OF tidy_Nil])
    fix k v assume "(k, v) \<in> set entries"
    then show "stripValue (stripValue v) = stripValue v"
      using JObj.IH [of "(k, v)" v] by simp
  qed
  then show ?case
    by (simp only: stripValue_JObj foldl_stripStep_tidy_fixed)
qed simp_all

lemma stripValue_noNullFields: "noNullFields (stripValue v)"
proof (induction v)
  case (JArr items)
  have "noNullFields (if isNullish item then item else stripValue item)"
    if "item \<in> set items" for item
    using that JArr.IH [of item] by (auto simp: isNullish_def)
  then show ?case by (simp add: list_all_iff del: set_map) (metis (no_types, lifting) imageE list.set_map)
next
  case (JObj entries)
  have "tidy noNullFields (foldl stripStep [] entries)"
  proof (rule tidy_foldl_stripStep [OF tidy_Nil])
    fix k v assume "(k, v) \<in> set entries"
    then show "noNullFields (stripValue v)"
      using JObj.IH [of "(k, v)" v] by simp
  qed
  then show ?case
    unfolding stripValue_JObj by (auto simp: tidy_def list_all_iff)
qed simp_all












lemma distinct_keys_unique:
  "distinct (map fst xs) \<Longrightarrow> (k, v) \<in> set xs \<Longrightarrow> (k, w) \<in> set xs \<Longrightarrow> v = w"
  by (induction xs) (auto simp: rev_image_eqI)

text \<open>
  C2: records and sequences are treated differently. For a record (with its names distinct,
  as the properties of an object are) the result holds, in order, exactly the fields whose
  value is neither \<^verbatim>\<open>null\<close> nor \<^verbatim>\<open>undefined\<close>, each bound to its stripped value, so that no
  field whose value was \<^verbatim>\<open>null\<close> or \<^verbatim>\<open>undefined\<close> is left (the one name that an assignment cannot
  create, \<^verbatim>\<open>__proto__\<close>, is absent too). For a sequence the result has the same length; a \<^verbatim>\<open>null\<close>
  or \<^verbatim>\<open>undefined\<close> element stays where it is, unchanged, and every other element is
  stripped. The two examples of the specification are \<^verbatim>\<open>{a: 1, b: null, c: undefined}\<close> and
  \<^verbatim>\<open>{polygon: [[1,2],[null,null],[3,4]]}\<close>.
\<close>

theorem stripValue_record_sequence_asymmetry:
  fixes entries :: "(string \<times> 'n jv) list" and items :: "'n jv list"
  assumes "distinct (map fst entries)"
  shows "(\<exists>out. stripValue (JObj entries) = JObj out
            \<and> out = map (\<lambda>(key, innerValue). (key, stripValue innerValue))
                       (filter (\<lambda>(key, innerValue). \<not> isNullish innerValue \<and> key \<noteq> ''__proto__'')
                          entries)
            \<and> (\<forall>(key, innerValue) \<in> set entries. isNullish innerValue \<longrightarrow> key \<notin> fst ` set out))
         \<and> (\<exists>out. stripValue (JArr items) = JArr out
               \<and> length out = length items
               \<and> (\<forall>i < length items.
                     out ! i = (if isNullish (items ! i) then items ! i else stripValue (items ! i))))
         \<and> stripValue (JObj [(''a'', JNum (1::int)), (''b'', JNull), (''c'', JUndefined)])
             = JObj [(''a'', JNum 1)]
         \<and> stripValue (JObj [(''polygon'', JArr [JArr [JNum (1::int), JNum 2], JArr [JNull, JNull],
                                                    JArr [JNum 3, JNum 4]])])
             = JObj [(''polygon'', JArr [JArr [JNum 1, JNum 2], JArr [JNull, JNull],
                                          JArr [JNum 3, JNum 4]])]"
proof (intro conjI)
  let ?out = "map (\<lambda>(key, innerValue). (key, stripValue innerValue))
                (filter (\<lambda>(key, innerValue). \<not> isNullish innerValue \<and> key \<noteq> ''__proto__'') entries)"
  have eq: "stripValue (JObj entries) = JObj ?out"
    using foldl_stripStep_distinct [OF assms, of "[]"] by (simp only: stripValue_JObj) simp
  have omitted: "\<forall>(key, innerValue) \<in> set entries. isNullish innerValue \<longrightarrow> key \<notin> fst ` set ?out"
  proof -
    have False
      if in_entries: "(key, innerValue) \<in> set entries" and nullish: "isNullish innerValue"
        and kept: "key \<in> fst ` set ?out" for key innerValue
    proof -
      from kept obtain v where "(key, v) \<in> set entries" "\<not> isNullish v" by auto
      with in_entries assms have "v = innerValue"
        by (auto dest: distinct_keys_unique)
      with \<open>\<not> isNullish v\<close> nullish show False by simp
    qed
    then show ?thesis by blast
  qed
  from eq omitted
  show "\<exists>out. stripValue (JObj entries) = JObj out
            \<and> out = ?out
            \<and> (\<forall>(key, innerValue) \<in> set entries. isNullish innerValue \<longrightarrow> key \<notin> fst ` set out)"
    by blast
  show "\<exists>out. stripValue (JArr items) = JArr out
               \<and> length out = length items
               \<and> (\<forall>i < length items.
                     out ! i = (if isNullish (items ! i) then items ! i else stripValue (items ! i)))"
    by simp
  show "stripValue (JObj [(''a'', JNum (1::int)), (''b'', JNull), (''c'', JUndefined)])
             = JObj [(''a'', JNum 1)]"
    by (simp add: isNullish_def assign_def)
  show "stripValue (JObj [(''polygon'', JArr [JArr [JNum (1::int), JNum 2], JArr [JNull, JNull],
                                                    JArr [JNum 3, JNum 4]])])
             = JObj [(''polygon'', JArr [JArr [JNum 1, JNum 2], JArr [JNull, JNull],
                                          JArr [JNum 3, JNum 4]])]"
    by (simp add: isNullish_def assign_def)
qed

theorem stripValue_record_sequence_asymmetry_witness:
  "distinct (map fst [(''gusts'', JNull), (''wind_speed'', JNum (12::int))])
   \<and> stripValue (JObj [(''gusts'', JNull), (''wind_speed'', JNum (12::int))])
       = JObj [(''wind_speed'', JNum 12)]
   \<and> stripValue (JArr [JNull, JObj [(''gusts'', JNull)], JNum (12::int)])
       = JArr [JNull, JObj [], JNum 12]"
  using stripValue_record_sequence_asymmetry
          [of "[(''gusts'', JNull), (''wind_speed'', JNum (12::int))]"
              "[JNull, JObj [(''gusts'', JNull)], JNum (12::int)]"]
  by (simp add: isNullish_def assign_def)

text \<open>
  C3: \<^verbatim>\<open>componentsToRecord(undefined)\<close> is \<^verbatim>\<open>undefined\<close>; for a mapping the result is always a
  record, never \<^verbatim>\<open>undefined\<close>, also when every field is dropped; and
  \<^verbatim>\<open>componentsToRecord({telemetry: {latitude: undefined}})\<close> is \<^verbatim>\<open>{telemetry: {}}\<close>.
\<close>

theorem componentsToRecord_top_level:
  "componentsToRecord (JUndefined :: 'n jv) = JUndefined
   \<and> (\<forall>entries :: (string \<times> 'n jv) list. \<exists>out. componentsToRecord (JObj entries) = JObj out)
   \<and> (\<forall>entries :: (string \<times> 'n jv) list. componentsToRecord (JObj entries) \<noteq> JUndefined)
   \<and> componentsToRecord (JObj [(''telemetry'', JNull), (''health'', JUndefined)] :: 'n jv) = JObj []
   \<and> componentsToRecord (JObj [(''telemetry'', JObj [(''latitude'', JUndefined)])] :: 'n jv)
       = JObj [(''telemetry'', JObj [])]"
  by (simp add: componentsToRecord_def stripNulls_def isNullish_def assign_def)

text \<open>
  C5: for a record or a sequence \<open>x\<close> with no \<^verbatim>\<open>null\<close> and no \<^verbatim>\<open>undefined\<close> at any depth,
  stripping the stripped value gives the stripped value again.
\<close>

theorem stripValue_idempotent_null_free:
  assumes "isRecord x \<or> isSequence x" and "nullFree x"
  shows "stripValue (stripValue x) = stripValue x"
  by (rule stripValue_idem)

theorem stripValue_idempotent_null_free_witness:
  "(isRecord (JObj [(''polygon'', JArr [JArr [JNum (1::int), JNum 2], JArr [JNum 3, JNum 4]])])
    \<or> isSequence (JObj [(''polygon'', JArr [JArr [JNum (1::int), JNum 2], JArr [JNum 3, JNum 4]])]))
   \<and> nullFree (JObj [(''polygon'', JArr [JArr [JNum (1::int), JNum 2], JArr [JNum 3, JNum 4]])])
   \<and> stripValue (stripValue (JObj [(''polygon'', JArr [JArr [JNum (1::int), JNum 2], JArr [JNum 3, JNum 4]])]))
       = stripValue (JObj [(''polygon'', JArr [JArr [JNum (1::int), JNum 2], JArr [JNum 3, JNum 4]])])"
  using stripValue_idempotent_null_free
          [of "JObj [(''polygon'', JArr [JArr [JNum (1::int), JNum 2], JArr [JNum 3, JNum 4]])]"]
  by (simp add: isRecord_def)

text \<open>
  C9: in the result of \<^verbatim>\<open>stripValue\<close>, and so of \<^verbatim>\<open>stripNulls\<close> and \<^verbatim>\<open>componentsToRecord\<close>, no record
  at any depth, also inside sequences, has a field bound to \<^verbatim>\<open>null\<close> or \<^verbatim>\<open>undefined\<close>; such
  values are left only as elements of sequences.
\<close>

theorem normalize_output_no_null_fields:
  "noNullFields (stripValue v) \<and> noNullFields (stripNulls v) \<and> noNullFields (componentsToRecord v)"
  using stripValue_noNullFields [of v]
  by (simp add: stripNulls_def componentsToRecord_def)

theorem normalize_output_no_null_fields_witness:
  "\<not> noNullFields (JObj [(''a'', JArr [JNull, JObj [(''b'', JNull)]]), (''c'', JUndefined)] :: int jv)
   \<and> noNullFields (stripValue (JObj [(''a'', JArr [JNull, JObj [(''b'', JNull)]]), (''c'', JUndefined)] :: int jv))
   \<and> stripValue (JObj [(''a'', JArr [JNull, JObj [(''b'', JNull)]]), (''c'', JUndefined)] :: int jv)
       = JObj [(''a'', JArr [JNull, JObj []])]"
  using normalize_output_no_null_fields
          [of "JObj [(''a'', JArr [JNull, JObj [(''b'', JNull)]]), (''c'', JUndefined)] :: int jv"]
  by (simp add: isNullish_def assign_def)

text \<open>
  C10: \<^verbatim>\<open>componentsToRecord(null)\<close> is \<^verbatim>\<open>undefined\<close>, not an empty record: \<^verbatim>\<open>null\<close> passes the
  test against \<^verbatim>\<open>undefined\<close> and is then mapped to \<^verbatim>\<open>undefined\<close> by the first branch of
  \<^verbatim>\<open>stripValue\<close>.
\<close>

theorem componentsToRecord_null:
  "componentsToRecord (JNull :: 'n jv) = JUndefined
   \<and> componentsToRecord (JNull :: 'n jv) \<noteq> JObj []
   \<and> (JNull :: 'n jv) \<noteq> JUndefined
   \<and> stripValue (JNull :: 'n jv) = JUndefined"
  by (simp add: componentsToRecord_def stripNulls_def)

section \<open>The validator: lemmas and results\<close>

lemma validateKeys_ok_iff: "validateKeys keys = Inr () \<longleftrightarrow> (\<forall>key \<in> set keys. \<not> offending key)"
  by (induction keys) (auto simp: offending_def)

lemma validateKeys_first:
  "\<forall>k \<in> set pre. \<not> offending k \<Longrightarrow> offending key \<Longrightarrow>
   validateKeys (pre @ key # post) = Inl (Error (unknownComponentMessage key))"
  by (induction pre) (auto simp: offending_def)

lemma find_offending_split:
  "find offending keys = Some key \<Longrightarrow>
   \<exists>pre post. keys = pre @ key # post \<and> (\<forall>k \<in> set pre. \<not> offending k) \<and> offending key"
proof (induction keys)
  case Nil
  then show ?case by simp
next
  case (Cons k keys)
  show ?case
  proof (cases "offending k")
    case True
    with Cons.prems have "k = key" by simp
    with True have "k # keys = [] @ key # keys \<and> (\<forall>k \<in> set []. \<not> offending k) \<and> offending key"
      by simp
    then show ?thesis by blast
  next
    case False
    with Cons obtain pre post where
      "keys = pre @ key # post" "\<forall>k \<in> set pre. \<not> offending k" "offending key"
      by auto
    with False have "k # keys = (k # pre) @ key # post \<and> (\<forall>k \<in> set (k # pre). \<not> offending k) \<and> offending key"
      by simp
    then show ?thesis by blast
  qed
qed

lemma exists_offending_find:
  "\<exists>key \<in> set keys. offending key \<Longrightarrow> \<exists>key. find offending keys = Some key"
  by (cases "find offending keys") (auto simp: find_None_iff)

lemma unknownComponentMessage_inj:
  "unknownComponentMessage a = unknownComponentMessage b \<Longrightarrow> a = b"
  by (simp add: unknownComponentMessage_def)

text \<open>
  C1: \<^verbatim>\<open>validateEntityComponents\<close> returns without an error exactly when every top-level key is
  one of the eleven known names or starts with \<^verbatim>\<open>custom_\<close>. The empty mapping is valid, and so
  is the key \<^verbatim>\<open>custom_\<close> with nothing after the prefix. A mapping with a key that is neither
  known nor prefixed fails with the unknown-component error, naming such a key.
\<close>

theorem validateEntityComponents_valid_iff:
  "(validateEntityComponents m = Inr ()
      \<longleftrightarrow> (\<forall>key \<in> set (Object_keys m). has KNOWN_ENTITY_COMPONENTS key \<or> startsWith key ''custom_''))
   \<and> set KNOWN_ENTITY_COMPONENTS
       = {''telemetry'', ''geometry'', ''task_catalog'', ''media_refs'', ''mil_view'', ''health'',
          ''sensor_refs'', ''communications'', ''task_queue'', ''status'', ''heartbeat''}
   \<and> validateEntityComponents ([] :: (string \<times> 'v) list) = Inr ()
   \<and> validateEntityComponents [(''custom_'', v)] = Inr ()
   \<and> ((\<exists>key \<in> set (Object_keys m). \<not> has KNOWN_ENTITY_COMPONENTS key \<and> \<not> startsWith key ''custom_'')
        \<longrightarrow> (\<exists>key \<in> set (Object_keys m).
               (\<not> has KNOWN_ENTITY_COMPONENTS key \<and> \<not> startsWith key ''custom_'')
               \<and> validateEntityComponents m = Inl (Error (unknownComponentMessage key))))"
proof (intro conjI impI)
  show "validateEntityComponents m = Inr ()
      \<longleftrightarrow> (\<forall>key \<in> set (Object_keys m). has KNOWN_ENTITY_COMPONENTS key \<or> startsWith key ''custom_'')"
    by (simp add: validateEntityComponents_def validateKeys_ok_iff offending_def)
  show "set KNOWN_ENTITY_COMPONENTS
       = {''telemetry'', ''geometry'', ''task_catalog'', ''media_refs'', ''mil_view'', ''health'',
          ''sensor_refs'', ''communications'', ''task_queue'', ''status'', ''heartbeat''}"
    by (simp add: KNOWN_ENTITY_COMPONENTS_def)
  show "validateEntityComponents ([] :: (string \<times> 'v) list) = Inr ()"
    by (simp add: validateEntityComponents_def Object_keys_def)
  show "validateEntityComponents [(''custom_'', v)] = Inr ()"
    by (simp add: validateEntityComponents_def Object_keys_def startsWith_def)
  assume "\<exists>key \<in> set (Object_keys m). \<not> has KNOWN_ENTITY_COMPONENTS key \<and> \<not> startsWith key ''custom_''"
  then have "\<exists>key \<in> set (Object_keys m). offending key"
    by (simp add: offending_def)
  then obtain key where "find offending (Object_keys m) = Some key"
    using exists_offending_find by blast
  then obtain pre post where
    split: "Object_keys m = pre @ key # post" "\<forall>k \<in> set pre. \<not> offending k" "offending key"
    using find_offending_split by blast
  then have "validateEntityComponents m = Inl (Error (unknownComponentMessage key))"
    by (simp add: validateEntityComponents_def validateKeys_first)
  moreover have "key \<in> set (Object_keys m)" using split by simp
  ultimately show "\<exists>key \<in> set (Object_keys m).
               (\<not> has KNOWN_ENTITY_COMPONENTS key \<and> \<not> startsWith key ''custom_'')
               \<and> validateEntityComponents m = Inl (Error (unknownComponentMessage key))"
    using split(3) by (auto simp: offending_def)
qed

theorem validateEntityComponents_valid_iff_witness:
  "validateEntityComponents [(''telemetry'', JObj []), (''custom_weather'', JNull :: int jv)] = Inr ()
   \<and> validateEntityComponents [(''telemetry'', JObj []), (''unknown_key'', JObj [] :: int jv)]
       = Inl (Error (unknownComponentMessage ''unknown_key''))"
proof -
  have ok: "\<forall>key \<in> set (Object_keys [(''telemetry'', JObj []), (''custom_weather'', JNull :: int jv)]).
              has KNOWN_ENTITY_COMPONENTS key \<or> startsWith key ''custom_''"
    by (simp add: Object_keys_def has_def KNOWN_ENTITY_COMPONENTS_def startsWith_def)
  have bad: "\<exists>key \<in> set (Object_keys [(''telemetry'', JObj []), (''unknown_key'', JObj [] :: int jv)]).
              \<not> has KNOWN_ENTITY_COMPONENTS key \<and> \<not> startsWith key ''custom_''"
    by (simp add: Object_keys_def has_def KNOWN_ENTITY_COMPONENTS_def startsWith_def)
  have only: "\<And>key. key \<in> set (Object_keys [(''telemetry'', JObj []), (''unknown_key'', JObj [] :: int jv)])
              \<Longrightarrow> \<not> has KNOWN_ENTITY_COMPONENTS key \<Longrightarrow> key = ''unknown_key''"
    by (auto simp: Object_keys_def has_def KNOWN_ENTITY_COMPONENTS_def)
  have first: "validateEntityComponents [(''telemetry'', JObj []), (''custom_weather'', JNull :: int jv)] = Inr ()"
    using ok validateEntityComponents_valid_iff
            [of "[(''telemetry'', JObj []), (''custom_weather'', JNull :: int jv)]", THEN conjunct1]
    by (rule rev_iffD2)
  have "\<exists>key \<in> set (Object_keys [(''telemetry'', JObj []), (''unknown_key'', JObj [] :: int jv)]).
          (\<not> has KNOWN_ENTITY_COMPONENTS key \<and> \<not> startsWith key ''custom_'')
          \<and> validateEntityComponents [(''telemetry'', JObj []), (''unknown_key'', JObj [] :: int jv)]
              = Inl (Error (unknownComponentMessage key))"
    using validateEntityComponents_valid_iff
            [of "[(''telemetry'', JObj []), (''unknown_key'', JObj [] :: int jv)]",
             THEN conjunct2, THEN conjunct2, THEN conjunct2, THEN conjunct2] bad
    by (rule mp)
  then obtain key where
    "key \<in> set (Object_keys [(''telemetry'', JObj []), (''unknown_key'', JObj [] :: int jv)])"
    "\<not> has KNOWN_ENTITY_COMPONENTS key"
    "validateEntityComponents [(''telemetry'', JObj []), (''unknown_key'', JObj [] :: int jv)]
       = Inl (Error (unknownComponentMessage key))"
    by blast
  with only have "validateEntityComponents [(''telemetry'', JObj []), (''unknown_key'', JObj [] :: int jv)]
       = Inl (Error (unknownComponentMessage ''unknown_key''))"
    by blast
  with first show ?thesis by simp
qed

lemma isArrayIndex_offending: "isArrayIndex name \<Longrightarrow> offending name"
proof -
  assume a: "isArrayIndex name"
  then obtain ch rest where n: "name = ch # rest" and d: "isDigit ch"
    by (cases name) (auto simp: isArrayIndex_def)
  have "\<not> has KNOWN_ENTITY_COMPONENTS name"
    using d by (auto simp: n has_def KNOWN_ENTITY_COMPONENTS_def isDigit_def)
  moreover have "\<not> startsWith name ''custom_''"
    using d by (auto simp: n startsWith_def isDigit_def)
  ultimately show ?thesis by (simp add: offending_def)
qed

lemma ownProperties_no_index:
  "\<forall>name \<in> set (map fst created). \<not> isArrayIndex name \<Longrightarrow> ownProperties created = created"
proof -
  assume a: "\<forall>name \<in> set (map fst created). \<not> isArrayIndex name"
  then have "filter (\<lambda>(name, v). isArrayIndex name) created = []"
    by (auto simp: filter_empty_conv)
  moreover have "filter (\<lambda>(name, v). \<not> isArrayIndex name) created = created"
    using a by (intro filter_True) auto
  ultimately show ?thesis by (simp add: ownProperties_def)
qed

lemma sort_key_head_least:
  assumes "xs \<noteq> []"
  shows "\<exists>h t. sort_key f xs = h # t \<and> h \<in> set xs \<and> (\<forall>x \<in> set xs. f h \<le> f x)"
proof -
  have "sort_key f xs \<noteq> []" using assms by (metis length_0_conv length_sort)
  then obtain h t where ht: "sort_key f xs = h # t" by (cases "sort_key f xs") auto
  have "sorted (map f (sort_key f xs))" by (rule sorted_sort_key)
  then have "\<forall>x \<in> set (h # t). f h \<le> f x" by (auto simp: ht)
  moreover have "set (h # t) = set xs" using ht by (metis set_sort)
  ultimately show ?thesis using ht by auto
qed

lemma ownProperties_index_first:
  assumes "\<exists>name \<in> set (map fst created). isArrayIndex name"
  shows "\<exists>key rest. Object_keys (ownProperties created) = key # rest \<and> isArrayIndex key
           \<and> (\<forall>name \<in> set (map fst created). isArrayIndex name \<longrightarrow> indexValue key \<le> indexValue name)"
proof -
  let ?xs = "filter (\<lambda>(name, v). isArrayIndex name) created"
  let ?f = "\<lambda>(name, v). indexValue name"
  have "?xs \<noteq> []" using assms by (auto simp: filter_empty_conv)
  from sort_key_head_least [OF this, of ?f] obtain h t where
    ht: "sort_key ?f ?xs = h # t" and h: "h \<in> set ?xs" and least: "\<forall>x \<in> set ?xs. ?f h \<le> ?f x"
    by blast
  have "Object_keys (ownProperties created)
        = fst h # map fst (t @ filter (\<lambda>(name, v). \<not> isArrayIndex name) created)"
    by (simp add: Object_keys_def ownProperties_def ht)
  moreover have "isArrayIndex (fst h)" using h by auto
  moreover have "\<forall>name \<in> set (map fst created). isArrayIndex name \<longrightarrow> indexValue (fst h) \<le> indexValue name"
    using least by (cases h) force
  ultimately show ?thesis by blast
qed


text \<open>
  C7, as stated, fails: for the mapping created as \<^verbatim>\<open>{zeta: null, "1": null}\<close> the first
  offending key in insertion order is \<^verbatim>\<open>zeta\<close>, but \<^verbatim>\<open>Object.keys\<close> enumerates \<^verbatim>\<open>1\<close> first, and
  the error names \<^verbatim>\<open>1\<close>.
\<close>

theorem first_offending_not_in_insertion_order:
  "find offending (map fst [(''zeta'', JNull :: int jv), (''1'', JNull)]) = Some ''zeta''
   \<and> ownProperties [(''zeta'', JNull :: int jv), (''1'', JNull)] = [(''1'', JNull), (''zeta'', JNull)]
   \<and> validateEntityComponents (ownProperties [(''zeta'', JNull :: int jv), (''1'', JNull)])
       = Inl (Error (unknownComponentMessage ''1''))
   \<and> unknownComponentMessage ''1'' \<noteq> unknownComponentMessage ''zeta''"
proof -
  have index: "isArrayIndex ''1''" "\<not> isArrayIndex ''zeta''"
    by (simp_all add: isArrayIndex_def isDigit_def indexValue_def digitValue_def)
  have order: "ownProperties [(''zeta'', JNull :: int jv), (''1'', JNull)] = [(''1'', JNull), (''zeta'', JNull)]"
    by (simp add: ownProperties_def index)
  have "find offending (map fst [(''zeta'', JNull :: int jv), (''1'', JNull)]) = Some ''zeta''"
    by (simp add: offending_def has_def KNOWN_ENTITY_COMPONENTS_def startsWith_def)
  moreover have "validateEntityComponents [(''1'', JNull :: int jv), (''zeta'', JNull)]
       = Inl (Error (unknownComponentMessage ''1''))"
    by (simp add: validateEntityComponents_def Object_keys_def has_def KNOWN_ENTITY_COMPONENTS_def
          startsWith_def)
  moreover have "unknownComponentMessage ''1'' \<noteq> unknownComponentMessage ''zeta''"
    by (simp add: unknownComponentMessage_def)
  ultimately show ?thesis by (simp only: order) simp
qed

text \<open>
  C7, amended: when validation fails, the error names the first offending key in the order in
  which \<^verbatim>\<open>Object.keys\<close> enumerates the keys, and the message determines that key. For a mapping
  none of whose keys is an array index this is the first offending key in insertion order;
  for a mapping with such keys it is the numerically least of them.
\<close>

theorem validateEntityComponents_first_enumerated:
  assumes "find offending (Object_keys (ownProperties created)) = Some key"
  shows "validateEntityComponents (ownProperties created) = Inl (Error (unknownComponentMessage key))
         \<and> (\<forall>other. validateEntityComponents (ownProperties created)
                        = Inl (Error (unknownComponentMessage other)) \<longrightarrow> other = key)
         \<and> (\<exists>pre post. Object_keys (ownProperties created) = pre @ key # post
                \<and> (\<forall>k \<in> set pre. has KNOWN_ENTITY_COMPONENTS k \<or> startsWith k ''custom_'')
                \<and> \<not> has KNOWN_ENTITY_COMPONENTS key \<and> \<not> startsWith key ''custom_'')
         \<and> ((\<forall>name \<in> set (map fst created). \<not> isArrayIndex name)
              \<longrightarrow> find offending (map fst created) = Some key)
         \<and> ((\<exists>name \<in> set (map fst created). isArrayIndex name)
              \<longrightarrow> isArrayIndex key
                  \<and> (\<forall>name \<in> set (map fst created).
                        isArrayIndex name \<longrightarrow> indexValue key \<le> indexValue name))"
proof (intro conjI impI)
  from find_offending_split [OF assms] obtain pre post where
    split: "Object_keys (ownProperties created) = pre @ key # post"
           "\<forall>k \<in> set pre. \<not> offending k" "offending key"
    by blast
  then show res: "validateEntityComponents (ownProperties created)
                  = Inl (Error (unknownComponentMessage key))"
    by (simp add: validateEntityComponents_def validateKeys_first)
  then show "\<forall>other. validateEntityComponents (ownProperties created)
                        = Inl (Error (unknownComponentMessage other)) \<longrightarrow> other = key"
    by (auto dest: unknownComponentMessage_inj)
  show "\<exists>pre post. Object_keys (ownProperties created) = pre @ key # post
                \<and> (\<forall>k \<in> set pre. has KNOWN_ENTITY_COMPONENTS k \<or> startsWith k ''custom_'')
                \<and> \<not> has KNOWN_ENTITY_COMPONENTS key \<and> \<not> startsWith key ''custom_''"
    using split by (auto simp: offending_def)
next
  assume "\<forall>name \<in> set (map fst created). \<not> isArrayIndex name"
  then have "ownProperties created = created" by (rule ownProperties_no_index)
  with assms show "find offending (map fst created) = Some key"
    by (simp add: Object_keys_def)
next
  assume "\<exists>name \<in> set (map fst created). isArrayIndex name"
  from ownProperties_index_first [OF this] obtain first rest where
    keys: "Object_keys (ownProperties created) = first # rest" and index: "isArrayIndex first"
    and least: "\<forall>name \<in> set (map fst created). isArrayIndex name \<longrightarrow> indexValue first \<le> indexValue name"
    by blast
  from index have "offending first" by (rule isArrayIndex_offending)
  with assms keys have same: "first = key" by simp
  from index same show "isArrayIndex key" by simp
  from least same
  show "\<forall>name \<in> set (map fst created). isArrayIndex name \<longrightarrow> indexValue key \<le> indexValue name"
    by simp
qed

theorem validateEntityComponents_first_enumerated_witness:
  "find offending (Object_keys (ownProperties
       [(''telemetry'', JNull :: int jv), (''zeta'', JNull), (''custom_a'', JNull), (''alpha'', JNull)]))
     = Some ''zeta''
   \<and> validateEntityComponents (ownProperties
       [(''telemetry'', JNull :: int jv), (''zeta'', JNull), (''custom_a'', JNull), (''alpha'', JNull)])
       = Inl (Error (unknownComponentMessage ''zeta''))
   \<and> find offending (map fst
       [(''telemetry'', JNull :: int jv), (''zeta'', JNull), (''custom_a'', JNull), (''alpha'', JNull)])
       = Some ''zeta''
   \<and> find offending (Object_keys (ownProperties
       [(''zeta'', JNull :: int jv), (''7'', JNull), (''health'', JNull), (''2'', JNull)]))
     = Some ''2''
   \<and> validateEntityComponents (ownProperties
       [(''zeta'', JNull :: int jv), (''7'', JNull), (''health'', JNull), (''2'', JNull)])
       = Inl (Error (unknownComponentMessage ''2''))
   \<and> isArrayIndex ''2''"
proof -
  let ?plain = "[(''telemetry'', JNull :: int jv), (''zeta'', JNull), (''custom_a'', JNull),
                 (''alpha'', JNull)]"
  let ?mixed = "[(''zeta'', JNull :: int jv), (''7'', JNull), (''health'', JNull), (''2'', JNull)]"
  have index: "isArrayIndex ''7''" "isArrayIndex ''2''" "\<not> isArrayIndex ''zeta''"
    "\<not> isArrayIndex ''health''" "\<not> isArrayIndex ''telemetry''" "\<not> isArrayIndex ''custom_a''"
    "\<not> isArrayIndex ''alpha''" "indexValue ''2'' = 2" "indexValue ''7'' = 7"
    by (simp_all add: isArrayIndex_def isDigit_def indexValue_def digitValue_def)
  have plain_order: "ownProperties ?plain = ?plain"
    by (simp add: ownProperties_def index)
  have mixed_order: "ownProperties ?mixed
                     = [(''2'', JNull), (''7'', JNull), (''zeta'', JNull), (''health'', JNull)]"
    by (simp add: ownProperties_def index)
  have plain_find: "find offending (Object_keys (ownProperties ?plain)) = Some ''zeta''"
    unfolding plain_order
    by (simp add: Object_keys_def offending_def has_def KNOWN_ENTITY_COMPONENTS_def startsWith_def)
  have mixed_find: "find offending (Object_keys (ownProperties ?mixed)) = Some ''2''"
    unfolding mixed_order
    by (simp add: Object_keys_def offending_def has_def KNOWN_ENTITY_COMPONENTS_def startsWith_def)
  have no_index: "\<forall>name \<in> set (map fst ?plain). \<not> isArrayIndex name"
    by (simp add: index)
  have some_index: "\<exists>name \<in> set (map fst ?mixed). isArrayIndex name"
    by (simp add: index)
  note plain = validateEntityComponents_first_enumerated [OF plain_find]
  note mixed = validateEntityComponents_first_enumerated [OF mixed_find]
  have "validateEntityComponents (ownProperties ?plain) = Inl (Error (unknownComponentMessage ''zeta''))"
    using plain by (rule conjunct1)
  moreover have "find offending (map fst ?plain) = Some ''zeta''"
    using plain [THEN conjunct2, THEN conjunct2, THEN conjunct2, THEN conjunct1] no_index
    by (rule mp)
  moreover have "validateEntityComponents (ownProperties ?mixed) = Inl (Error (unknownComponentMessage ''2''))"
    using mixed by (rule conjunct1)
  moreover have "isArrayIndex ''2''"
    using mixed [THEN conjunct2, THEN conjunct2, THEN conjunct2, THEN conjunct2, THEN mp,
                 OF some_index]
    by (rule conjunct1)
  ultimately show ?thesis using plain_find mixed_find by (intro conjI)
qed


text \<open>
  C8: two mappings with the same top-level keys in the same order have the same outcome,
  whatever values, of whatever type, the keys are bound to.
\<close>

theorem validateEntityComponents_shallow:
  fixes m1 :: "(string \<times> 'a) list" and m2 :: "(string \<times> 'b) list"
  assumes "Object_keys m1 = Object_keys m2"
  shows "validateEntityComponents m1 = validateEntityComponents m2"
  using assms by (simp add: validateEntityComponents_def)

theorem validateEntityComponents_shallow_witness:
  "Object_keys [(''custom_x'', JObj [(''unknown_key'', JNull :: int jv)]), (''bogus'', JObj [])]
     = Object_keys [(''custom_x'', True), (''bogus'', False)]
   \<and> validateEntityComponents [(''custom_x'', JObj [(''unknown_key'', JNull :: int jv)]), (''bogus'', JObj [])]
       = validateEntityComponents [(''custom_x'', True), (''bogus'', False)]
   \<and> validateEntityComponents [(''custom_x'', True), (''bogus'', False)]
       = Inl (Error (unknownComponentMessage ''bogus''))"
proof -
  have k: "Object_keys [(''custom_x'', JObj [(''unknown_key'', JNull :: int jv)]), (''bogus'', JObj [])]
     = Object_keys [(''custom_x'', True), (''bogus'', False)]"
    by (simp add: Object_keys_def)
  have "validateEntityComponents [(''custom_x'', True), (''bogus'', False)]
       = Inl (Error (unknownComponentMessage ''bogus''))"
    by (simp add: validateEntityComponents_def Object_keys_def has_def KNOWN_ENTITY_COMPONENTS_def
                  startsWith_def)
  with validateEntityComponents_shallow [OF k] k show ?thesis by simp
qed

section \<open>The client methods: lemmas and results\<close>

















end
